theory Spec2Isabelle
  imports Main
begin

section \<open>The transpiler of \<open>Class 2/main.cpp\<close>\<close>

text \<open>
  The program reads \<open>input.txt\<close>, tokenizes it line by line, and translates two statement
  shapes (\<open>dekhao(...)\<close> and \<open><type> <id> te <expr>\<close>) into a C++ program text.

  Conventions of the embedding:
  \<^item> a \<open>std::string\<close> is a \<open>string\<close> (a list of bytes), a \<open>vector<string>\<close> a \<open>string list\<close>;
  \<^item> every function of the source that takes the token vector \<open>tok\<close> and the cursor
    \<open>size_t& i\<close> takes the remaining tokens \<open>drop i tok\<close> here and returns the tokens
    that remain afterwards: \<open>tok[i]\<close> is the head of the list, \<open>tok[i+1]\<close> the head of its
    tail, \<open>i < tok.size()\<close> says that the list is not empty, and \<open>i + 3 < tok.size()\<close>
    that it has more than three elements. No function of the source reads behind its cursor;
  \<^item> an \<open>ostringstream\<close> is the string written to it so far;
  \<^item> \<open>isspace\<close> and \<open>isalnum\<close> are those of the "C" locale (the program never calls
    \<open>setlocale\<close>), applied to the byte value as \<open>static_cast<unsigned char>\<close> gives it.
\<close>

subsection \<open>Characters\<close>

abbreviation dquote :: char where
  "dquote \<equiv> CHR 0x22"

abbreviation newline_char :: char where
  "newline_char \<equiv> CHR 0x0A"

definition isspace :: "char \<Rightarrow> bool" where
  "isspace c = (let n = (of_char c :: nat) in n = 32 \<or> (9 \<le> n \<and> n \<le> 13))"

definition isalnum :: "char \<Rightarrow> bool" where
  "isalnum c = (let n = (of_char c :: nat) in
     (48 \<le> n \<and> n \<le> 57) \<or> (65 \<le> n \<and> n \<le> 90) \<or> (97 \<le> n \<and> n \<le> 122))"

text \<open>The test of line 36: the seven single-character tokens.\<close>

definition isSingleCharToken :: "char \<Rightarrow> bool" where
  "isSingleCharToken ch = (ch = CHR ''('' \<or> ch = CHR '')'' \<or> ch = CHR ''+'' \<or> ch = CHR ''-''
     \<or> ch = CHR ''*'' \<or> ch = CHR ''/'' \<or> ch = CHR '','')"

text \<open>The test of lines 43 and 45: a character of an identifier or number.\<close>

definition isWordChar :: "char \<Rightarrow> bool" where
  "isWordChar ch = (isalnum ch \<or> ch = CHR ''_'')"

subsection \<open>Tokenizer\<close>

text \<open>
  \<open>tokenizeLine\<close>, lines 12 to 56. The argument is the part of the line from index \<open>i\<close> on.
  The two inner loops over \<open>j\<close> are \<open>takeWhile\<close> (the characters passed over) and
  \<open>dropWhile\<close> (the line from \<open>j\<close> on). For a string literal, line 29 takes the closing
  quote when the scan stopped before the end of the line.
\<close>

function tokenizeLine :: "string \<Rightarrow> string list" where
  "tokenizeLine [] = []"
| "tokenizeLine (ch # rest) =
    (if isspace ch then tokenizeLine rest
     else if ch = dquote then
       (case dropWhile (\<lambda>c. c \<noteq> dquote) rest of
          [] \<Rightarrow> [ch # takeWhile (\<lambda>c. c \<noteq> dquote) rest]
        | q # after \<Rightarrow> (ch # takeWhile (\<lambda>c. c \<noteq> dquote) rest @ [q]) # tokenizeLine after)
     else if isSingleCharToken ch then [ch] # tokenizeLine rest
     else if isWordChar ch then
       (ch # takeWhile isWordChar rest) # tokenizeLine (dropWhile isWordChar rest)
     else [ch] # tokenizeLine rest)"
  by pat_completeness auto
termination
proof (relation "measure length")
  show "wf (measure length)" by simp
next
  fix ch :: char and rest x21 x22
  assume "dropWhile (\<lambda>c. c \<noteq> dquote) rest = x21 # x22"
  then have "length (x21 # x22) \<le> length rest"
    by (metis length_dropWhile_le)
  then show "(x22, ch # rest) \<in> measure length" by simp
next
  fix ch :: char and rest
  have "length (dropWhile isWordChar rest) \<le> length rest"
    by (rule length_dropWhile_le)
  then show "(dropWhile isWordChar rest, ch # rest) \<in> measure length" by simp
qed simp_all

text \<open>
  The input file: \<open>None\<close> when it cannot be opened, otherwise its bytes. \<open>getlines\<close> is the
  loop \<open>while (getline(fin, line))\<close>: a line ends at a newline character or at the end of the
  file, and reading at the end of the file fails.
\<close>

function getlines :: "string \<Rightarrow> string list" where
  "getlines [] = []"
| "getlines (c # cs) =
    takeWhile (\<lambda>x. x \<noteq> newline_char) (c # cs) #
      (case dropWhile (\<lambda>x. x \<noteq> newline_char) (c # cs) of
         [] \<Rightarrow> []
       | nl # after \<Rightarrow> getlines after)"
  by pat_completeness auto
termination
proof (relation "measure length")
  show "wf (measure length)" by simp
next
  fix c :: char and cs x21 x22
  assume "dropWhile (\<lambda>x. x \<noteq> newline_char) (c # cs) = x21 # x22"
  then have "length (x21 # x22) \<le> length (c # cs)"
    by (metis length_dropWhile_le)
  then show "(x22, c # cs) \<in> measure length" by simp
qed

text \<open>
  \<open>tokenizeFile\<close>, lines 58 to 74: the tokens, and what was written to \<open>cerr\<close>. After the
  tokens of each line comes the marker token \<open>"\n"\<close>.
\<close>

definition tokenizeFile :: "string option \<Rightarrow> string list \<times> string list" where
  "tokenizeFile file =
     (case file of
        None \<Rightarrow> ([], [''Error: cannot open input.txt''])
      | Some bytes \<Rightarrow> (concat (map (\<lambda>line. tokenizeLine line @ [[newline_char]]) (getlines bytes)), []))"

subsection \<open>Helpers\<close>

definition isNewlineToken :: "string \<Rightarrow> bool" where
  "isNewlineToken t = (t = [newline_char])"

definition isTypeKeyword :: "string \<Rightarrow> bool" where
  "isTypeKeyword t = (t = ''integer'' \<or> t = ''float'' \<or> t = ''string'')"

definition cppType :: "string \<Rightarrow> string" where
  "cppType t =
     (if t = ''integer'' then ''int''
      else if t = ''float'' then ''float''
      else if t = ''string'' then ''std::string''
      else t)"

subsection \<open>Expression Reader\<close>

text \<open>The lambda \<open>wordLike\<close> of lines 99 to 102.\<close>

definition wordLike :: "string \<Rightarrow> bool" where
  "wordLike s =
     (if length s \<ge> 2 \<and> hd s = dquote \<and> last s = dquote then True
      else s \<noteq> [] \<and> (isalnum (hd s) \<or> hd s = CHR ''_''))"

text \<open>
  \<open>readExprUntilEOL\<close>, lines 87 to 109, with the stream \<open>oss\<close> as accumulator. The result
  is the expression and the remaining tokens (the cursor stays on the marker).
\<close>

fun readExpr_loop :: "string list \<Rightarrow> string \<Rightarrow> string \<times> string list" where
  "readExpr_loop [] oss = (oss, [])"
| "readExpr_loop (t # ts) oss =
    (if isNewlineToken t then (oss, t # ts)
     else if t = ''te'' then readExpr_loop ts oss
     else readExpr_loop ts
       (oss @ t @
         (case ts of
            [] \<Rightarrow> []
          | next # _ \<Rightarrow>
              if \<not> isNewlineToken next \<and> wordLike t \<and> wordLike next then '' '' else [])))"

definition readExprUntilEOL :: "string list \<Rightarrow> string \<times> string list" where
  "readExprUntilEOL tok = readExpr_loop tok []"

subsection \<open>Argument Splitter\<close>

text \<open>The test written twice in lines 146 and 147, for \<open>curWord\<close> and \<open>nxtWord\<close>.\<close>

definition argWord :: "string \<Rightarrow> bool" where
  "argWord t = (t \<noteq> [] \<and> (isalnum (hd t) \<or> hd t = CHR ''_'' \<or> hd t = dquote))"

text \<open>The two \<open>erase\<close> calls of lines 120 and 121.\<close>

definition trim :: "string \<Rightarrow> string" where
  "trim s = rev (dropWhile isspace (rev (dropWhile isspace s)))"

text \<open>The lambda \<open>flushArg\<close>: the new \<open>args\<close>; the caller empties \<open>cur\<close>.\<close>

definition flushArg :: "string \<Rightarrow> string list \<Rightarrow> string list" where
  "flushArg cur args = (let s = trim cur in if s \<noteq> [] then args @ [s] else args)"

text \<open>
  The loop of \<open>splitArgs\<close>, lines 127 to 152, over the state \<open>depth\<close>, \<open>cur\<close>, \<open>args\<close>.
  \<open>depth\<close> is never decremented at zero, so it is a natural number (the \<open>int\<close> of the
  source would need more than \<open>2^31\<close> opening parentheses to overflow).
\<close>

fun splitArgs_loop :: "string list \<Rightarrow> nat \<Rightarrow> string \<Rightarrow> string list \<Rightarrow> string list \<times> string list" where
  "splitArgs_loop [] depth cur args = (args, [])"
| "splitArgs_loop (t # ts) depth cur args =
    (if t = ''('' then splitArgs_loop ts (depth + 1) (cur @ t) args
     else if t = '')'' then
       (if depth = 0 then (flushArg cur args, ts)
        else splitArgs_loop ts (depth - 1) (cur @ t) args)
     else if t = '','' \<and> depth = 0 then splitArgs_loop ts depth [] (flushArg cur args)
     else if \<not> isNewlineToken t then
       splitArgs_loop ts depth
         (cur @ t @
           (case ts of
              [] \<Rightarrow> []
            | nxt # _ \<Rightarrow> if argWord t \<and> argWord nxt then '' '' else []))
         args
     else splitArgs_loop ts depth cur args)"

definition splitArgs :: "string list \<Rightarrow> string list \<times> string list" where
  "splitArgs tok = splitArgs_loop tok 0 [] []"

subsection \<open>Parser and emitter\<close>

text \<open>The local variables of \<open>transpile\<close> that the scan changes.\<close>

record tstate =
  body :: "string list"
  usesString :: bool
  usesFloat :: bool

definition skipToEOL :: "string list \<Rightarrow> string list" where
  "skipToEOL tok = dropWhile (\<lambda>t. \<not> isNewlineToken t) tok"

definition skipNewlines :: "string list \<Rightarrow> string list" where
  "skipNewlines tok = dropWhile isNewlineToken tok"

text \<open>Lines 184 to 189: the statement of a \<open>dekhao\<close>.\<close>

definition printStmt :: "string list \<Rightarrow> string" where
  "printStmt args = foldl (\<lambda>stmt a. stmt @ '' << '' @ a) ''std::cout'' args @ '' << std::endl;''"

text \<open>Lines 208 and 209: the statement of a declaration.\<close>

definition declStmt :: "string \<Rightarrow> string \<Rightarrow> string \<Rightarrow> string" where
  "declStmt tkw ident expr = cppType tkw @ '' '' @ ident @ '' = '' @ expr @ '';''"

text \<open>
  Lines 174 to 215: one statement, from a cursor that is on a token that is not a marker.
  The result is the remaining tokens and the new state.
\<close>

fun dispatch :: "string list \<Rightarrow> tstate \<Rightarrow> string list \<times> tstate" where
  "dispatch [] st = ([], st)"
| "dispatch (t # ts) st =
    (if t = ''dekhao'' then
       (case ts of
          [] \<Rightarrow> (skipToEOL ts, st)
        | p # ts' \<Rightarrow>
            if p = ''('' then
              (case splitArgs ts' of
                 (args, r) \<Rightarrow> (skipToEOL r, st\<lparr>body := body st @ [printStmt args]\<rparr>))
            else (skipToEOL ts, st))
     else if 3 < length (t # ts) \<and> isTypeKeyword t then
       (let tkw = t;
            ident = (case ts of [] \<Rightarrow> [] | x # _ \<Rightarrow> x);
            r1 = (case ts of [] \<Rightarrow> [] | _ # r \<Rightarrow> r);
            maybeTe = (case r1 of [] \<Rightarrow> [] | x # _ \<Rightarrow> x);
            r2 = (if maybeTe = ''te'' then tl r1 else r1)
        in case readExprUntilEOL r2 of
             (expr, r3) \<Rightarrow>
               (r3, st\<lparr>body := body st @ [declStmt tkw ident expr],
                       usesString := (if tkw = ''string'' then True else usesString st),
                       usesFloat := (if tkw = ''float'' then True else usesFloat st)\<rparr>))
     else (skipToEOL (t # ts), st))"


text \<open>The cursor never moves backwards, and \<open>dispatch\<close> moves it forwards.\<close>

lemma readExpr_loop_length: "length (snd (readExpr_loop tok oss)) \<le> length tok"
  by (induction tok oss rule: readExpr_loop.induct) (auto simp: le_SucI)

lemma splitArgs_loop_length: "length (snd (splitArgs_loop tok depth cur args)) \<le> length tok"
  by (induction tok depth cur args rule: splitArgs_loop.induct) (auto simp: le_SucI)

lemma skipToEOL_length: "length (skipToEOL tok) \<le> length tok"
  by (simp add: skipToEOL_def length_dropWhile_le)

lemma skipNewlines_length: "length (skipNewlines tok) \<le> length tok"
  by (simp add: skipNewlines_def length_dropWhile_le)

lemma skipToEOL_Cons: "\<not> isNewlineToken t \<Longrightarrow> skipToEOL (t # ts) = skipToEOL ts"
  by (simp add: skipToEOL_def)

text \<open>The four ways through \<open>dispatch\<close>.\<close>

lemma dispatch_print:
  "dispatch (''dekhao'' # ''('' # ts) st =
     (skipToEOL (snd (splitArgs ts)), st\<lparr>body := body st @ [printStmt (fst (splitArgs ts))]\<rparr>)"
  by (simp add: split_beta)

lemma dispatch_malformed:
  "ts = [] \<or> hd ts \<noteq> ''('' \<Longrightarrow> dispatch (''dekhao'' # ts) st = (skipToEOL ts, st)"
  by (cases ts) auto

lemma dispatch_decl:
  assumes "isTypeKeyword t" and "2 \<le> length r"
  shows "dispatch (t # x # r) st =
     (snd (readExprUntilEOL (if hd r = ''te'' then tl r else r)),
      st\<lparr>body := body st @ [declStmt t x (fst (readExprUntilEOL (if hd r = ''te'' then tl r else r)))],
         usesString := (if t = ''string'' then True else usesString st),
         usesFloat := (if t = ''float'' then True else usesFloat st)\<rparr>)"
proof -
  from assms(2) obtain y r' where r: "r = y # r'" by (cases r) auto
  have nd: "t \<noteq> ''dekhao''" using assms(1) by (auto simp: isTypeKeyword_def)
  have len: "3 < length (t # x # r)" using assms(2) by simp
  show ?thesis
    unfolding dispatch.simps if_not_P [OF nd] using len assms(1)
    by (simp add: r split_beta Let_def)
qed

lemma dispatch_other:
  assumes "t \<noteq> ''dekhao''" and "\<not> isTypeKeyword t \<or> length ts < 3"
  shows "dispatch (t # ts) st = (skipToEOL (t # ts), st)"
proof -
  have "\<not> (3 < length (t # ts) \<and> isTypeKeyword t)" using assms(2) by auto
  then show ?thesis
    unfolding dispatch.simps if_not_P [OF assms(1)] by (rule if_not_P)
qed

lemma dispatch_progress:
  assumes "tok \<noteq> []" and "\<not> isNewlineToken (hd tok)"
  shows "length (fst (dispatch tok st)) < length tok"
proof -
  from assms obtain t ts where tok: "tok = t # ts" and t: "\<not> isNewlineToken t"
    by (cases tok) auto
  have eol: "length (skipToEOL ts) < length (t # ts)"
    using skipToEOL_length [of ts] by simp
  show ?thesis
  proof (cases "t = ''dekhao''")
    case True
    show ?thesis
    proof (cases "ts = [] \<or> hd ts \<noteq> ''(''")
      case True
      with \<open>t = ''dekhao''\<close> eol show ?thesis
        unfolding tok by (simp add: dispatch_malformed del: dispatch.simps)
    next
      case False
      then obtain ts' where ts: "ts = ''('' # ts'" by (cases ts) auto
      have "length (skipToEOL (snd (splitArgs ts'))) \<le> length ts'"
        using skipToEOL_length [of "snd (splitArgs ts')"] splitArgs_loop_length [of ts' 0 "[]" "[]"]
        by (simp add: splitArgs_def)
      with \<open>t = ''dekhao''\<close> show ?thesis
        unfolding tok ts by (simp add: dispatch_print del: dispatch.simps)
    qed
  next
    case False
    show ?thesis
    proof (cases "\<not> isTypeKeyword t \<or> length ts < 3")
      case True
      have "length (skipToEOL (t # ts)) < length (t # ts)"
        using eol t by (simp add: skipToEOL_Cons)
      then show ?thesis
        unfolding tok dispatch_other [OF False True] by simp
    next
      case F2: False
      then obtain x r where ts: "ts = x # r" and r: "2 \<le> length r" and k: "isTypeKeyword t"
        by (cases ts) auto
      define r2 where "r2 = (if hd r = ''te'' then tl r else r)"
      have "length r2 \<le> length r" by (simp add: r2_def)
      moreover have "length (snd (readExprUntilEOL r2)) \<le> length r2"
        by (simp add: readExprUntilEOL_def readExpr_loop_length)
      ultimately have "length (snd (readExprUntilEOL r2)) < length (t # x # r)"
        by simp
      then show ?thesis
        unfolding tok ts dispatch_decl [OF k r] r2_def by simp
    qed
  qed
qed

text \<open>
  The loop of \<open>transpile\<close>, lines 168 to 219: skip the markers, stop at the end, translate
  one statement, skip the markers after it.
\<close>

function transpile_loop :: "string list \<Rightarrow> tstate \<Rightarrow> tstate" where
  "transpile_loop tok st =
    (if tok = [] then st
     else if skipNewlines tok = [] then st
     else case dispatch (skipNewlines tok) st of
            (r, st') \<Rightarrow> transpile_loop (skipNewlines r) st')"
  by pat_completeness auto
termination
proof (relation "measure (\<lambda>(tok, st). length tok)")
  show "wf (measure (\<lambda>(tok, st). length tok))" by simp
next
  fix tok :: "string list" and st :: tstate and r st'
  assume ne: "skipNewlines tok \<noteq> []" and p: "(r, st') = dispatch (skipNewlines tok) st"
  have "\<not> isNewlineToken (hd (skipNewlines tok))"
    using ne hd_dropWhile [of isNewlineToken tok] by (simp add: skipNewlines_def)
  from dispatch_progress [OF ne this, of st]
  have "length r < length (skipNewlines tok)"
    using p by (metis fst_conv)
  then have "length (skipNewlines r) < length tok"
    using skipNewlines_length [of r] skipNewlines_length [of tok] by simp
  then show "((skipNewlines r, st'), (tok, st)) \<in> measure (\<lambda>(tok, st). length tok)"
    by simp
qed

declare transpile_loop.simps [simp del]

text \<open>Lines 160 to 164: the state before the scan.\<close>

definition init_state :: tstate where
  "init_state = \<lparr>body = [], usesString = False, usesFloat = False\<rparr>"

definition transpile_scan :: "string list \<Rightarrow> tstate" where
  "transpile_scan tok = transpile_loop tok init_state"

text \<open>Lines 221 to 228: the program text, from the state after the scan.\<close>

definition assemble :: "tstate \<Rightarrow> string" where
  "assemble st =
     ''#include <iostream>'' @ [newline_char]
     @ (if usesString st then ''#include <string>'' @ [newline_char] else [])
     @ ''using namespace std;'' @ [newline_char, newline_char]
     @ ''int main() {'' @ [newline_char]
     @ foldl (\<lambda>out s. out @ ''    '' @ s @ [newline_char]) [] (body st)
     @ ''    return 0;'' @ [newline_char] @ ''}'' @ [newline_char]"

definition transpile :: "string list \<Rightarrow> string" where
  "transpile tok = assemble (transpile_scan tok)"

subsection \<open>The program\<close>

text \<open>
  \<open>main\<close>, lines 231 to 267: the exit status, what is written to \<open>cerr\<close>, and the text
  written to \<open>generated.cpp\<close> if any. The arguments are the input file (\<open>None\<close> when it
  cannot be opened) and whether \<open>generated.cpp\<close> can be opened for writing.
\<close>

record outcome =
  exit_status :: int
  diagnostics :: "string list"
  generated :: "string option"

definition main :: "string option \<Rightarrow> bool \<Rightarrow> outcome" where
  "main file writable =
     (case tokenizeFile file of
        (tokens, errs) \<Rightarrow>
          if tokens = [] then
            \<lparr>exit_status = 1,
             diagnostics = errs @ [''No tokens (or failed to read input).''],
             generated = None\<rparr>
          else
            (let cppCode = transpile tokens in
             if writable then \<lparr>exit_status = 0, diagnostics = errs, generated = Some cppCode\<rparr>
             else \<lparr>exit_status = 0,
                   diagnostics = errs @ [''Warning: could not write generated.cpp''],
                   generated = None\<rparr>))"


subsection \<open>Notions of the specification\<close>

text \<open>
  A token that starts with a double quote is a complete literal when it has at least two
  characters and ends with a double quote. The Tokenizer produces an incomplete one for a
  literal that is not closed on its line.
\<close>

definition completeLiteral :: "string \<Rightarrow> bool" where
  "completeLiteral t = (2 \<le> length t \<and> hd t = dquote \<and> last t = dquote)"

text \<open>
  The word-like test of the glossary of the specification: the first character is
  alphanumeric, an underscore or a quote character.
\<close>

definition spec_wordLike :: "string \<Rightarrow> bool" where
  "spec_wordLike t = (t \<noteq> [] \<and> (isalnum (hd t) \<or> hd t = CHR ''_'' \<or> hd t = dquote))"

text \<open>
  The re-serialization of the specification: the tokens in order, adjacent word-like tokens
  separated by exactly one space, all other adjacent tokens with nothing between them.
\<close>

fun spec_reserialize :: "string list \<Rightarrow> string" where
  "spec_reserialize [] = []"
| "spec_reserialize [t] = t"
| "spec_reserialize (t # u # ts) =
     t @ (if spec_wordLike t \<and> spec_wordLike u then '' '' else []) @ spec_reserialize (u # ts)"

text \<open>
  Word-like by the glossary, and not a string literal left open.
\<close>

definition closedWordLike :: "string \<Rightarrow> bool" where
  "closedWordLike t = (spec_wordLike t \<and> (hd t = dquote \<longrightarrow> completeLiteral t))"

text \<open>
  The same re-serialization for any word-like test \<open>w\<close>, and the text without the white
  space at its beginning and at its end.
\<close>

fun reserializeBy :: "(string \<Rightarrow> bool) \<Rightarrow> string list \<Rightarrow> string" where
  "reserializeBy w [] = []"
| "reserializeBy w [t] = t"
| "reserializeBy w (t # u # ts) =
     t @ (if w t \<and> w u then '' '' else []) @ reserializeBy w (u # ts)"

definition spec_trim :: "string \<Rightarrow> string" where
  "spec_trim s =
     (let s' = dropWhile isspace s
      in take (length s' - length (takeWhile isspace (rev s'))) s')"

text \<open>
  The tokens of an expression without the tokens \<open>te\<close>. \<open>noStrayTe w expr\<close> says that
  wherever a token \<open>te\<close> of \<open>expr\<close> comes directly after a token that is word-like
  by the test \<open>w\<close>, the next token of \<open>expr\<close> that is not \<open>te\<close> exists and is word-like too.
\<close>

definition withoutTe :: "string list \<Rightarrow> string list" where
  "withoutTe expr = filter (\<lambda>t. t \<noteq> ''te'') expr"

fun noStrayTe :: "(string \<Rightarrow> bool) \<Rightarrow> string list \<Rightarrow> bool" where
  "noStrayTe w [] = True"
| "noStrayTe w [t] = True"
| "noStrayTe w (t # u # ts) =
     ((t \<noteq> ''te'' \<and> u = ''te'' \<and> w t \<longrightarrow> withoutTe ts \<noteq> [] \<and> w (hd (withoutTe ts)))
      \<and> noStrayTe w (u # ts))"

text \<open>
  The tokens between the parentheses of a call with the arguments \<open>as\<close>, each a list of
  tokens: the arguments separated by commas.
\<close>

fun argTokens :: "string list list \<Rightarrow> string list" where
  "argTokens [] = []"
| "argTokens [a] = a"
| "argTokens (a # b # as) = a @ '','' # argTokens (b # as)"

text \<open>
  \<open>argDepth a d\<close> follows the parentheses of the tokens \<open>a\<close> from the nesting depth \<open>d\<close>. It
  is \<open>None\<close> when \<open>a\<close> has a marker, a comma at depth zero or a closing parenthesis at depth
  zero, and the depth after \<open>a\<close> otherwise. The tokens of one argument of a call have
  \<open>argDepth a 0 = Some 0\<close>.
\<close>

fun argDepth :: "string list \<Rightarrow> nat \<Rightarrow> nat option" where
  "argDepth [] d = Some d"
| "argDepth (t # ts) d =
     (if t = ''('' then argDepth ts (d + 1)
      else if t = '')'' then (if d = 0 then None else argDepth ts (d - 1))
      else if t = '','' \<and> d = 0 then None
      else if isNewlineToken t then None
      else argDepth ts d)"

text \<open>
  Whether a closing parenthesis at depth zero ends the argument list that starts with the
  tokens \<open>tok\<close> at depth \<open>d\<close>, and whether \<open>tok\<close> has a comma at depth zero.
\<close>

fun closesAtTop :: "string list \<Rightarrow> nat \<Rightarrow> bool" where
  "closesAtTop [] d = False"
| "closesAtTop (t # ts) d =
     (if t = ''('' then closesAtTop ts (d + 1)
      else if t = '')'' then (d = 0 \<or> closesAtTop ts (d - 1))
      else closesAtTop ts d)"

fun commaAtTop :: "string list \<Rightarrow> nat \<Rightarrow> bool" where
  "commaAtTop [] d = False"
| "commaAtTop (t # ts) d =
     (if t = ''('' then commaAtTop ts (d + 1)
      else if t = '')'' then commaAtTop ts (d - 1)
      else if t = '','' \<and> d = 0 then True
      else commaAtTop ts d)"

text \<open>
  \<open>followedBy st e\<close> is the state \<open>st\<close> after the lines of \<open>e\<close> have been appended to its
  lines and the flags of \<open>e\<close> have been set in it.
\<close>

definition followedBy :: "tstate \<Rightarrow> tstate \<Rightarrow> tstate" where
  "followedBy st e =
     st\<lparr>body := body st @ body e,
        usesString := (usesString st \<or> usesString e),
        usesFloat := (usesFloat st \<or> usesFloat e)\<rparr>"


section \<open>Properties\<close>

subsection \<open>The two word-like tests\<close>

text \<open>
  C4 as stated does not hold, at two inputs. For the line \<open>a "abc\<close> the Tokenizer produces
  the token \<open>"abc\<close>, which the test of the Argument Splitter accepts and the test of the
  Expression Reader rejects: the Argument Splitter writes \<open>a "abc\<close> and the Expression
  Reader \<open>a"abc\<close>. And for the tokens \<open>x + te b\<close>, none of them a literal, the Expression
  Reader drops \<open>te\<close> and writes \<open>x+b\<close>, while the Argument Splitter writes \<open>x+te b\<close>.
\<close>

theorem wordLike_argWord_counterexample:
  "tokenizeLine (''a '' @ dquote # ''abc'') = [''a'', dquote # ''abc'']
   \<and> argWord (dquote # ''abc'') \<and> \<not> wordLike (dquote # ''abc'')
   \<and> readExprUntilEOL [''a'', dquote # ''abc''] = (''a'' @ dquote # ''abc'', [])
   \<and> splitArgs [''a'', dquote # ''abc'', '')''] = ([''a '' @ dquote # ''abc''], [])
   \<and> readExprUntilEOL [''x'', ''+'', ''te'', ''b''] = (''x+b'', [])
   \<and> splitArgs [''x'', ''+'', ''te'', ''b'', '')''] = ([''x+te b''], [])"
  by code_simp

text \<open>
  C4, amended: the test of the Argument Splitter is the one of the glossary (the first
  character is alphanumeric, an underscore or a double quote). The test of the Expression
  Reader agrees with it on every token except a token that starts with a double quote and is
  not a complete literal, which only the Argument Splitter takes as word-like. A token \<open>te\<close>
  is dropped by the Expression Reader and written by the Argument Splitter. For every other
  token and its successor, none of the two an incomplete literal, both components write
  the token and then the same separator, one space exactly when both tokens are word-like;
  this is stated for the tokens that the Argument Splitter appends to an argument (all but
  the marker, and the comma and the closing parenthesis at depth zero).
\<close>

theorem wordLike_argWord:
  "argWord t = (t \<noteq> [] \<and> (isalnum (hd t) \<or> hd t = CHR ''_'' \<or> hd t = dquote))
   \<and> wordLike t = (argWord t \<and> (hd t = dquote \<longrightarrow> completeLiteral t))
   \<and> ((hd t = dquote \<longrightarrow> completeLiteral t) \<and> (hd n = dquote \<longrightarrow> completeLiteral n)
        \<longrightarrow> (wordLike t \<and> wordLike n) = (argWord t \<and> argWord n))
   \<and> (\<not> isNewlineToken t \<and> t \<noteq> ''te'' \<and> t \<noteq> ''('' \<and> t \<noteq> '')'' \<and> \<not> (t = '','' \<and> d = 0)
        \<and> (hd t = dquote \<longrightarrow> completeLiteral t) \<and> (hd n = dquote \<longrightarrow> completeLiteral n)
      \<longrightarrow> readExpr_loop (t # n # ts) oss
            = readExpr_loop (n # ts) (oss @ t @ (if argWord t \<and> argWord n then '' '' else []))
          \<and> splitArgs_loop (t # n # ts) d cur args
            = splitArgs_loop (n # ts) d (cur @ t @ (if argWord t \<and> argWord n then '' '' else [])) args)
   \<and> readExpr_loop (''('' # n # ts) oss = readExpr_loop (n # ts) (oss @ ''('')
   \<and> splitArgs_loop (''('' # n # ts) d cur args = splitArgs_loop (n # ts) (d + 1) (cur @ ''('') args
   \<and> readExpr_loop ('')'' # n # ts) oss = readExpr_loop (n # ts) (oss @ '')'')
   \<and> (d \<noteq> 0 \<longrightarrow>
        splitArgs_loop ('')'' # n # ts) d cur args = splitArgs_loop (n # ts) (d - 1) (cur @ '')'') args)
   \<and> readExpr_loop (''te'' # n # ts) oss = readExpr_loop (n # ts) oss
   \<and> splitArgs_loop (''te'' # n # ts) d cur args
       = splitArgs_loop (n # ts) d (cur @ ''te'' @ (if argWord n then '' '' else [])) args"
proof -
  have nq: "\<not> isalnum dquote" by (simp add: isalnum_def)
  have a: "wordLike s = (argWord s \<and> (hd s = dquote \<longrightarrow> completeLiteral s))" for s
    using nq by (cases s) (auto simp: wordLike_def argWord_def completeLiteral_def)
  have 1: "argWord t = (t \<noteq> [] \<and> (isalnum (hd t) \<or> hd t = CHR ''_'' \<or> hd t = dquote))"
    by (simp add: argWord_def)
  have 3: "(hd t = dquote \<longrightarrow> completeLiteral t) \<and> (hd n = dquote \<longrightarrow> completeLiteral n)
        \<longrightarrow> (wordLike t \<and> wordLike n) = (argWord t \<and> argWord n)"
    using a [of t] a [of n] by auto
  have m: "\<not> argWord s" if "isNewlineToken s" for s
    using that by (simp add: isNewlineToken_def argWord_def isalnum_def)
  have 4: "readExpr_loop (t # n # ts) oss
            = readExpr_loop (n # ts) (oss @ t @ (if argWord t \<and> argWord n then '' '' else []))
          \<and> splitArgs_loop (t # n # ts) d cur args
            = splitArgs_loop (n # ts) d (cur @ t @ (if argWord t \<and> argWord n then '' '' else [])) args"
    if "\<not> isNewlineToken t \<and> t \<noteq> ''te'' \<and> t \<noteq> ''('' \<and> t \<noteq> '')'' \<and> \<not> (t = '','' \<and> d = 0)
        \<and> (hd t = dquote \<longrightarrow> completeLiteral t) \<and> (hd n = dquote \<longrightarrow> completeLiteral n)"
  proof -
    have w: "wordLike t = argWord t" "wordLike n = argWord n"
      using that a [of t] a [of n] by auto
    have "(\<not> isNewlineToken n \<and> argWord t \<and> argWord n) = (argWord t \<and> argWord n)"
      using m [of n] by auto
    then have r: "readExpr_loop (t # n # ts) oss
            = readExpr_loop (n # ts) (oss @ t @ (if argWord t \<and> argWord n then '' '' else []))"
      using that by (simp add: w)
    have s: "splitArgs_loop (t # n # ts) d cur args
            = splitArgs_loop (n # ts) d (cur @ t @ (if argWord t \<and> argWord n then '' '' else [])) args"
      using that by auto
    from r s show ?thesis by (rule conjI)
  qed
  have p: "\<not> wordLike ''(''" "\<not> wordLike '')''" "wordLike ''te''" "argWord ''te''"
    "\<not> isNewlineToken ''(''" "\<not> isNewlineToken '')''" "\<not> isNewlineToken ''te''"
    by (simp_all add: wordLike_def argWord_def isalnum_def isNewlineToken_def)
  have 5: "readExpr_loop (''('' # n # ts) oss = readExpr_loop (n # ts) (oss @ ''('')"
    and 7: "readExpr_loop ('')'' # n # ts) oss = readExpr_loop (n # ts) (oss @ '')'')"
    and 9: "readExpr_loop (''te'' # n # ts) oss = readExpr_loop (n # ts) oss"
    using p by simp_all
  have 6: "splitArgs_loop (''('' # n # ts) d cur args = splitArgs_loop (n # ts) (d + 1) (cur @ ''('') args"
    by simp
  have 8: "d \<noteq> 0 \<longrightarrow>
        splitArgs_loop ('')'' # n # ts) d cur args = splitArgs_loop (n # ts) (d - 1) (cur @ '')'') args"
    by simp
  have 10: "splitArgs_loop (''te'' # n # ts) d cur args
       = splitArgs_loop (n # ts) d (cur @ ''te'' @ (if argWord n then '' '' else [])) args"
    using p by simp
  from 1 a [of t] 3 4 5 6 7 8 9 10 show ?thesis by blast
qed

theorem wordLike_argWord_witness:
  "wordLike (dquote # ''Hello'' @ [dquote]) \<and> argWord (dquote # ''Hello'' @ [dquote])
   \<and> wordLike ''x1'' \<and> argWord ''x1'' \<and> \<not> wordLike ''+'' \<and> \<not> argWord ''+''
   \<and> readExpr_loop [''x1'', ''y''] [] = readExpr_loop [''y''] ''x1 ''
   \<and> splitArgs_loop [''x1'', ''y''] 0 [] [] = splitArgs_loop [''y''] 0 ''x1 '' []"
proof -
  have c: "completeLiteral (dquote # ''Hello'' @ [dquote])"
    by (simp add: completeLiteral_def)
  have w: "argWord (dquote # ''Hello'' @ [dquote])" "argWord ''x1''" "\<not> argWord ''+''" "argWord ''y''"
    by (simp_all add: argWord_def isalnum_def)
  have h: "\<not> isNewlineToken ''x1'' \<and> ''x1'' \<noteq> ''te'' \<and> ''x1'' \<noteq> ''('' \<and> ''x1'' \<noteq> '')''
      \<and> \<not> (''x1'' = '','' \<and> (0::nat) = 0)
      \<and> (hd ''x1'' = dquote \<longrightarrow> completeLiteral ''x1'') \<and> (hd ''y'' = dquote \<longrightarrow> completeLiteral ''y'')"
    by (simp add: isNewlineToken_def)
  have s: "readExpr_loop [''x1'', ''y''] [] = readExpr_loop [''y''] ''x1 ''
   \<and> splitArgs_loop [''x1'', ''y''] 0 [] [] = splitArgs_loop [''y''] 0 ''x1 '' []"
    using wordLike_argWord [where t = "''x1''" and n = "''y''" and ts = "[]" and d = 0
        and oss = "[]" and cur = "[]" and args = "[]"] h w
    by (simp del: readExpr_loop.simps splitArgs_loop.simps)
  have q: "wordLike (dquote # ''Hello'' @ [dquote]) \<and> argWord (dquote # ''Hello'' @ [dquote])
   \<and> wordLike ''x1'' \<and> argWord ''x1'' \<and> \<not> wordLike ''+'' \<and> \<not> argWord ''+''"
    using c w wordLike_argWord [of "dquote # ''Hello'' @ [dquote]" "''x1''"]
      wordLike_argWord [of "''x1''" "''+''"] wordLike_argWord [of "''+''" "''x1''"]
    by simp
  from q s show ?thesis by simp
qed

subsection \<open>The scenario of the float declaration\<close>

text \<open>
  C5 as stated does not hold: for the input line \<open>float ratio te total / count\<close> the
  initializer is not \<open>total / count\<close>.
\<close>

theorem float_ratio_spaced_counterexample:
  "\<not> (usesFloat (transpile_scan (fst (tokenizeFile (Some ''float ratio te total / count''))))
      \<and> body (transpile_scan (fst (tokenizeFile (Some ''float ratio te total / count''))))
          = [''float ratio = total / count;''])"
  by code_simp

text \<open>
  C5, amended: for the input line \<open>float ratio te total / count\<close> the transpiler sets the
  float feature flag, leaves the string feature flag, and emits the one declaration
  \<open>float ratio = total/count;\<close>, whose initializer \<open>total/count\<close> has no space around the
  operator.
\<close>

theorem float_ratio_scenario:
  "tokenizeFile (Some ''float ratio te total / count'')
     = ([''float'', ''ratio'', ''te'', ''total'', ''/'', ''count'', [newline_char]], [])
   \<and> transpile_scan (fst (tokenizeFile (Some ''float ratio te total / count'')))
     = \<lparr>body = [''float ratio = total/count;''], usesString = False, usesFloat = True\<rparr>
   \<and> declStmt ''float'' ''ratio'' ''total/count'' = ''float ratio = total/count;''"
  by code_simp


subsection \<open>String literals of the Tokenizer\<close>

lemma count_list_dropWhile_neq:
  "count_list (dropWhile (\<lambda>c. c \<noteq> x) xs) x = count_list xs x"
  by (induction xs) auto

lemma count_list_dropWhile_not:
  "\<not> P x \<Longrightarrow> count_list (dropWhile P xs) x = count_list xs x"
  by (induction xs) auto

lemma not_isWordChar_dquote: "\<not> isWordChar dquote"
  by (simp add: isWordChar_def isalnum_def)

lemma not_isspace_dquote: "\<not> isspace dquote"
  by (simp add: isspace_def)

lemma tokenizeLine_unclosed:
  "dquote \<notin> set lit \<Longrightarrow> tokenizeLine (dquote # lit) = [dquote # lit]"
proof -
  assume a: "dquote \<notin> set lit"
  then have "\<forall>c\<in>set lit. c \<noteq> dquote" by auto
  then have d: "dropWhile (\<lambda>c. c \<noteq> dquote) lit = []"
    and t: "takeWhile (\<lambda>c. c \<noteq> dquote) lit = lit"
    by simp_all
  show ?thesis by (simp add: not_isspace_dquote d t)
qed

lemma tokenizeLine_closed:
  assumes "dquote \<notin> set lit"
  shows "tokenizeLine (dquote # lit @ dquote # post) = (dquote # lit @ [dquote]) # tokenizeLine post"
proof -
  from assms have a: "\<forall>c\<in>set lit. c \<noteq> dquote" by auto
  have d: "dropWhile (\<lambda>c. c \<noteq> dquote) (lit @ dquote # post) = dquote # post"
    using a by (simp add: dropWhile_append3)
  have t: "takeWhile (\<lambda>c. c \<noteq> dquote) (lit @ dquote # post) = lit"
    using a by (simp add: takeWhile_tail)
  show ?thesis by (simp add: not_isspace_dquote d t)
qed

lemma tokenizeLine_before_quote:
  "even (count_list pre dquote) \<Longrightarrow>
     tokenizeLine (pre @ dquote # s) = tokenizeLine pre @ tokenizeLine (dquote # s)"
proof (induction pre rule: tokenizeLine.induct)
  case 1
  show ?case by simp
next
  case (2 ch rest)
  show ?case
  proof (cases "isspace ch")
    case True
    then have "ch \<noteq> dquote" using not_isspace_dquote by auto
    with True 2 show ?thesis by simp
  next
    case sp: False
    show ?thesis
    proof (cases "ch = dquote")
      case True
      with "2.prems" have odd: "odd (count_list rest dquote)" by simp
      then have "count_list rest dquote \<noteq> 0" by presburger
      then have "dropWhile (\<lambda>c. c \<noteq> dquote) rest \<noteq> []"
        by (metis count_list_dropWhile_neq count_list.simps(1))
      then obtain q after where d: "dropWhile (\<lambda>c. c \<noteq> dquote) rest = q # after"
        by (cases "dropWhile (\<lambda>c. c \<noteq> dquote) rest") auto
      then have q: "q = dquote" using hd_dropWhile [of "\<lambda>c. c \<noteq> dquote" rest] by auto
      have "count_list (q # after) dquote = count_list rest dquote"
        using count_list_dropWhile_neq [of dquote rest] d by simp
      then have "count_list rest dquote = Suc (count_list after dquote)"
        using q by simp
      with odd have ev: "even (count_list after dquote)" by simp
      have mem: "dquote \<in> set rest" using d q by (metis list.set_intros(1) set_dropWhileD)
      have d': "dropWhile (\<lambda>c. c \<noteq> dquote) (rest @ dquote # s) = q # after @ dquote # s"
        using mem d by simp
      have t': "takeWhile (\<lambda>c. c \<noteq> dquote) (rest @ dquote # s) = takeWhile (\<lambda>c. c \<noteq> dquote) rest"
        using mem by simp
      have ih: "tokenizeLine (after @ dquote # s) = tokenizeLine after @ tokenizeLine (dquote # s)"
        using "2.IH"(2) [OF sp True d ev] .
      have l: "tokenizeLine ((ch # rest) @ dquote # s)
          = (ch # takeWhile (\<lambda>c. c \<noteq> dquote) rest @ [q]) # tokenizeLine (after @ dquote # s)"
        using sp True d' t' by simp
      have r: "tokenizeLine (ch # rest) = (ch # takeWhile (\<lambda>c. c \<noteq> dquote) rest @ [q]) # tokenizeLine after"
        using sp True d by simp
      show ?thesis unfolding l r ih by simp
    next
      case nq: False
      with "2.prems" have ev: "even (count_list rest dquote)" by simp
      show ?thesis
      proof (cases "isSingleCharToken ch")
        case True
        with sp nq "2.IH"(3) ev show ?thesis by simp
      next
        case ns: False
        show ?thesis
        proof (cases "isWordChar ch")
          case True
          have ev': "even (count_list (dropWhile isWordChar rest) dquote)"
            using ev count_list_dropWhile_not [of isWordChar dquote rest] not_isWordChar_dquote by simp
          have ih: "tokenizeLine (dropWhile isWordChar rest @ dquote # s)
              = tokenizeLine (dropWhile isWordChar rest) @ tokenizeLine (dquote # s)"
            using "2.IH"(4) [OF sp nq ns True ev'] .
          have d': "dropWhile isWordChar (rest @ dquote # s) = dropWhile isWordChar rest @ dquote # s"
            by (simp add: dropWhile_append3 not_isWordChar_dquote)
          have t': "takeWhile isWordChar (rest @ dquote # s) = takeWhile isWordChar rest"
            by (simp add: takeWhile_tail not_isWordChar_dquote)
          have l: "tokenizeLine ((ch # rest) @ dquote # s)
             = (ch # takeWhile isWordChar rest) # tokenizeLine (dropWhile isWordChar rest @ dquote # s)"
            using sp nq ns True d' t' by simp
          show ?thesis unfolding l ih using sp nq ns True by simp
        next
          case False
          with sp nq ns "2.IH"(5) ev show ?thesis by simp
        qed
      qed
    qed
  qed
qed

text \<open>
  C6: a double quote that opens a literal (an even number of double quotes precedes it on
  the line) and has no double quote after it gives one token, from the quote to the end of
  the line, with no closing quote added; this token is the last of the line. When a closing
  quote exists, the token runs from the opening to the closing quote and has both, and the
  Tokenizer goes on behind it.
\<close>

theorem tokenizeLine_string_literal:
  assumes "even (count_list pre dquote)" and "dquote \<notin> set lit"
  shows "tokenizeLine (pre @ dquote # lit) = tokenizeLine pre @ [dquote # lit]
     \<and> tokenizeLine (pre @ dquote # lit @ dquote # post)
         = tokenizeLine pre @ [dquote # lit @ [dquote]] @ tokenizeLine post"
  using assms
  by (simp add: tokenizeLine_before_quote tokenizeLine_unclosed tokenizeLine_closed
      del: tokenizeLine.simps)

theorem tokenizeLine_string_literal_witness:
  "tokenizeLine (''dekhao('' @ dquote # ''Hello, x)'')
     = [''dekhao'', ''('', dquote # ''Hello, x)'']
   \<and> tokenizeLine (''dekhao('' @ dquote # ''Hello'' @ dquote # '', x)'')
     = [''dekhao'', ''('', dquote # ''Hello'' @ [dquote], '','', ''x'', '')'']"
proof -
  have e: "even (count_list ''dekhao('' dquote)" by simp
  have n: "dquote \<notin> set ''Hello, x)''" "dquote \<notin> set ''Hello''" by simp_all
  have p: "tokenizeLine ''dekhao('' = [''dekhao'', ''(''] "
    by code_simp
  have q: "tokenizeLine '', x)'' = ['','', ''x'', '')''] "
    by code_simp
  show ?thesis
    using tokenizeLine_string_literal [OF e n(1)] tokenizeLine_string_literal [OF e n(2), of "'', x)''"]
    unfolding p q by simp
qed



subsection \<open>Lines that are skipped\<close>

lemma skipNewlines_idem: "skipNewlines (skipNewlines tok) = skipNewlines tok"
  by (induction tok) (auto simp: skipNewlines_def)

lemma skipNewlines_Cons: "isNewlineToken t \<Longrightarrow> skipNewlines (t # ts) = skipNewlines ts"
  by (simp add: skipNewlines_def)

lemma skipNewlines_id: "tok = [] \<or> \<not> isNewlineToken (hd tok) \<Longrightarrow> skipNewlines tok = tok"
  by (cases tok) (auto simp: skipNewlines_def)

lemma transpile_loop_skipNewlines: "transpile_loop (skipNewlines tok) st = transpile_loop tok st"
proof (cases "skipNewlines tok = []")
  case True
  then show ?thesis
    by (simp add: transpile_loop.simps [of tok] transpile_loop.simps [of "[]"])
next
  case False
  then have "tok \<noteq> []" by (auto simp: skipNewlines_def)
  with False show ?thesis
    by (simp add: transpile_loop.simps [of tok] transpile_loop.simps [of "skipNewlines tok"]
        skipNewlines_idem)
qed

lemma transpile_loop_step:
  assumes "tok \<noteq> []" and "\<not> isNewlineToken (hd tok)"
  shows "transpile_loop tok st = transpile_loop (fst (dispatch tok st)) (snd (dispatch tok st))"
proof -
  have "skipNewlines tok = tok" using assms by (simp add: skipNewlines_id)
  with assms(1) show ?thesis
    by (simp add: transpile_loop.simps [of tok] split_beta transpile_loop_skipNewlines
        del: dispatch.simps)
qed

lemma skipToEOL_line:
  "\<forall>t\<in>set ln. \<not> isNewlineToken t \<Longrightarrow> r = [] \<or> isNewlineToken (hd r) \<Longrightarrow> skipToEOL (ln @ r) = r"
proof (induction ln)
  case Nil
  then show ?case by (cases r) (auto simp: skipToEOL_def)
next
  case (Cons a ln)
  then show ?case by (simp add: skipToEOL_def)
qed

text \<open>
  C7 does not hold of the code. In the input \<open>string s\<close>, \<open>dekhao(y)\<close> the line \<open>string s\<close>
  matches neither statement shape. The guard of line 196 counts the marker and the tokens
  of the next line, so the line is not skipped: \<open>std::string s = ;\<close> is emitted for it, the
  string flag is set and the program text gets the line \<open>#include <string>\<close>. The same line
  at the end of the input is skipped and changes nothing, as C7 says.
\<close>

theorem short_line_not_skipped:
  "tokenizeFile (Some (''string s'' @ newline_char # ''dekhao(y)'' @ [newline_char]))
     = ([''string'', ''s'', [newline_char], ''dekhao'', ''('', ''y'', '')'', [newline_char]], [])
   \<and> dispatch [''string'', ''s'', [newline_char], ''dekhao'', ''('', ''y'', '')'', [newline_char]]
       init_state
     = ([[newline_char], ''dekhao'', ''('', ''y'', '')'', [newline_char]],
        \<lparr>body = [''std::string s = ;''], usesString = True, usesFloat = False\<rparr>)
   \<and> transpile_scan
       [''string'', ''s'', [newline_char], ''dekhao'', ''('', ''y'', '')'', [newline_char]]
     = \<lparr>body = [''std::string s = ;'', ''std::cout << y << std::endl;''],
        usesString = True, usesFloat = False\<rparr>
   \<and> take 18 (drop 20 (transpile
       [''string'', ''s'', [newline_char], ''dekhao'', ''('', ''y'', '')'', [newline_char]]))
     = ''#include <string>'' @ [newline_char]
   \<and> transpile_scan (fst (tokenizeFile (Some (''string s'' @ [newline_char])))) = init_state"
  by code_simp

text \<open>
  On the other lines the code does what C7 says. A line (the tokens \<open>ln\<close>, none of them a
  marker, followed by \<open>r\<close>, which is the end of the input or starts with a marker) is
  discarded as a whole when it starts with the print keyword without an opening parenthesis
  behind it, or with a token that is neither the print keyword nor a type keyword, or with
  a type keyword that the guard turns down: the cursor goes to the end of the line, the
  state is unchanged, and the scan goes on with the next line.
\<close>

lemma unrecognized_line_skipped:
  assumes "ln \<noteq> []" and "\<forall>t\<in>set ln. \<not> isNewlineToken t"
    and "r = [] \<or> isNewlineToken (hd r)"
    and "(hd ln = ''dekhao'' \<and> (tl ln = [] \<or> hd (tl ln) \<noteq> ''(''))
         \<or> (hd ln \<noteq> ''dekhao'' \<and> (\<not> isTypeKeyword (hd ln) \<or> length (tl ln @ r) < 3))"
  shows "dispatch (ln @ r) st = (r, st)
     \<and> transpile_loop (ln @ r) st = transpile_loop r st"
proof -
  from assms(1) obtain t ts where ln: "ln = t # ts" by (cases ln) auto
  have t: "\<not> isNewlineToken t" and ts: "\<forall>t\<in>set ts. \<not> isNewlineToken t"
    using assms(2) ln by auto
  have d: "dispatch (ln @ r) st = (r, st)"
  proof (cases "t = ''dekhao''")
    case True
    with assms(4) ln have m: "ts = [] \<or> hd ts \<noteq> ''(''" by auto
    have "ts @ r = [] \<or> hd (ts @ r) \<noteq> ''(''"
      using m assms(3) by (cases ts) (auto simp: isNewlineToken_def)
    then have "dispatch (''dekhao'' # ts @ r) st = (skipToEOL (ts @ r), st)"
      by (rule dispatch_malformed)
    with True ln show ?thesis
      using skipToEOL_line [OF ts assms(3)] by simp
  next
    case False
    with assms(4) ln have k: "\<not> isTypeKeyword t \<or> length (ts @ r) < 3" by simp
    have "dispatch (t # ts @ r) st = (skipToEOL (t # ts @ r), st)"
      using False k by (rule dispatch_other)
    then show ?thesis
      using skipToEOL_line [OF ts assms(3)] t ln by (simp add: skipToEOL_Cons)
  qed
  have h: "ln @ r \<noteq> []" "\<not> isNewlineToken (hd (ln @ r))"
    using ln t by simp_all
  have "transpile_loop (ln @ r) st = transpile_loop r st"
    using transpile_loop_step [OF h, of st] by (simp add: d)
  with d show ?thesis by simp
qed

subsection \<open>Type keyword lines with few tokens\<close>

text \<open>
  C3 does not hold of the code. In the input \<open>integer x\<close>, \<open>dekhao(y)\<close> the line
  \<open>integer x\<close> has one token behind its type keyword. The guard of line 196 counts the
  marker and the tokens of the next line, lets the line pass, and \<open>int x = ;\<close> is emitted.
  In the input \<open>integer\<close>, \<open>x te 5\<close> the marker is taken as the name and the next line as
  the expression. The line \<open>integer x\<close> at the end of the input is skipped, as C3 says.
\<close>

theorem short_declaration_emitted:
  "tokenizeFile (Some (''integer x'' @ newline_char # ''dekhao(y)'' @ [newline_char]))
     = ([''integer'', ''x'', [newline_char], ''dekhao'', ''('', ''y'', '')'', [newline_char]], [])
   \<and> dispatch [''integer'', ''x'', [newline_char], ''dekhao'', ''('', ''y'', '')'', [newline_char]]
       init_state
     = ([[newline_char], ''dekhao'', ''('', ''y'', '')'', [newline_char]],
        \<lparr>body = [''int x = ;''], usesString = False, usesFloat = False\<rparr>)
   \<and> body (transpile_scan
       [''integer'', ''x'', [newline_char], ''dekhao'', ''('', ''y'', '')'', [newline_char]])
     = [''int x = ;'', ''std::cout << y << std::endl;'']
   \<and> body (transpile_scan (fst (tokenizeFile
       (Some (''integer'' @ newline_char # ''x te 5'' @ [newline_char])))))
     = [''int '' @ newline_char # '' = x 5;'']
   \<and> transpile_scan (fst (tokenizeFile (Some (''integer x'' @ [newline_char])))) = init_state"
  by code_simp

subsection \<open>Declaration lines\<close>

lemma spec_wordLike_is_argWord: "spec_wordLike t = argWord t"
  by (simp add: spec_wordLike_def argWord_def)

lemma wordLike_spec:
  "hd t = dquote \<longrightarrow> completeLiteral t \<Longrightarrow> wordLike t = spec_wordLike t"
proof -
  assume c: "hd t = dquote \<longrightarrow> completeLiteral t"
  have nq: "\<not> isalnum dquote" by (simp add: isalnum_def)
  show ?thesis
    using c nq by (cases t) (auto simp: wordLike_def spec_wordLike_def completeLiteral_def)
qed

lemma reserializeBy_spec: "reserializeBy spec_wordLike ts = spec_reserialize ts"
  by (induction ts rule: spec_reserialize.induct) simp_all

lemma reserializeBy_Cons:
  "reserializeBy w (t # xs) = t @ (if xs \<noteq> [] \<and> w t \<and> w (hd xs) then '' '' else []) @ reserializeBy w xs"
  by (cases xs) simp_all

lemma reserializeBy_cong:
  "\<forall>t\<in>set ts. w t = v t \<Longrightarrow> reserializeBy w ts = reserializeBy v ts"
  by (induction ts rule: spec_reserialize.induct) simp_all

lemma wordLike_te: "wordLike ''te''"
  by (simp add: wordLike_def isalnum_def)

lemma wordLike_closed: "wordLike = closedWordLike"
proof
  fix t
  have nq: "\<not> isalnum dquote" by (simp add: isalnum_def)
  show "wordLike t = closedWordLike t"
    using nq
    by (cases t) (auto simp: wordLike_def closedWordLike_def spec_wordLike_def completeLiteral_def)
qed

lemma readExpr_loop_withoutTe:
  assumes "\<forall>t\<in>set expr. \<not> isNewlineToken t" and "noStrayTe wordLike expr"
    and "r = [] \<or> isNewlineToken (hd r)"
  shows "readExpr_loop (expr @ r) oss = (oss @ reserializeBy wordLike (withoutTe expr), r)"
  using assms(1,2)
proof (induction expr arbitrary: oss)
  case Nil
  with assms(3) show ?case by (cases r) (auto simp: withoutTe_def)
next
  case (Cons t ts)
  have tidy: "noStrayTe wordLike ts"
    using Cons.prems(2) by (cases ts) simp_all
  have ih: "readExpr_loop (ts @ r) oss' = (oss' @ reserializeBy wordLike (withoutTe ts), r)" for oss'
    using Cons.IH [of oss'] Cons.prems(1) tidy by simp
  have nn: "\<not> isNewlineToken t" using Cons.prems(1) by simp
  show ?case
  proof (cases "t = ''te''")
    case True
    with nn ih [of oss] show ?thesis by (simp add: withoutTe_def)
  next
    case False
    define sp where "sp = (if withoutTe ts \<noteq> [] \<and> wordLike t \<and> wordLike (hd (withoutTe ts))
      then '' '' else [])"
    have sp: "(case ts @ r of [] \<Rightarrow> []
        | next # _ \<Rightarrow> if \<not> isNewlineToken next \<and> wordLike t \<and> wordLike next then '' '' else []) = sp"
    proof (cases ts)
      case Nil
      with assms(3) show ?thesis by (cases r) (auto simp: sp_def withoutTe_def)
    next
      case (Cons u us)
      have un: "\<not> isNewlineToken u" using Cons Cons.prems(1) \<open>\<forall>t\<in>set (t # ts). \<not> isNewlineToken t\<close> by simp
      show ?thesis
      proof (cases "u = ''te''")
        case True
        have "wordLike t \<longrightarrow> withoutTe us \<noteq> [] \<and> wordLike (hd (withoutTe us))"
          using \<open>noStrayTe wordLike (t # ts)\<close> Cons True False by simp
        moreover have "withoutTe ts = withoutTe us" using Cons True by (simp add: withoutTe_def)
        ultimately show ?thesis using Cons True un wordLike_te by (auto simp: sp_def)
      next
        case F: False
        then have "withoutTe ts = u # withoutTe us" using Cons by (simp add: withoutTe_def)
        then show ?thesis using Cons un by (simp add: sp_def)
      qed
    qed
    have "readExpr_loop ((t # ts) @ r) oss = readExpr_loop (ts @ r) (oss @ t @ sp)"
      using nn False sp by simp
    also have "\<dots> = ((oss @ t @ sp) @ reserializeBy wordLike (withoutTe ts), r)"
      by (rule ih)
    finally show ?thesis
      using False by (simp add: withoutTe_def [of "t # ts"] withoutTe_def [symmetric, of ts]
          reserializeBy_Cons [of wordLike t] sp_def)
  qed
qed

text \<open>
  C1 as stated does not hold, at three inputs. In \<open>integer x te a + te b\<close> the token \<open>te\<close>
  of the expression is dropped: the initializer is \<open>a+b\<close>, not the re-serialization
  \<open>a+te b\<close> of the expression. In \<open>string s te a "b\<close> the literal is left open and the
  Expression Reader does not take it as word-like: the initializer is \<open>a"b\<close>, without the
  space of the re-serialization. In the input \<open>dekhao(a\<close>, \<open>integer x te 5\<close> the argument
  list of the first line is not closed and takes the second line with it: no line declares
  \<open>x\<close>.
\<close>

theorem declaration_line_counterexample:
  "tokenizeLine ''integer x te a + te b'' = [''integer'', ''x'', ''te''] @ [''a'', ''+'', ''te'', ''b'']
   \<and> dispatch ([''integer'', ''x'', ''te''] @ [''a'', ''+'', ''te'', ''b''] @ [[newline_char]]) init_state
     = ([[newline_char]], \<lparr>body = [''int x = a+b;''], usesString = False, usesFloat = False\<rparr>)
   \<and> spec_reserialize [''a'', ''+'', ''te'', ''b''] = ''a+te b''
   \<and> tokenizeLine (''string s te a '' @ dquote # ''b'') = [''string'', ''s'', ''te''] @ [''a'', dquote # ''b'']
   \<and> dispatch ([''string'', ''s'', ''te''] @ [''a'', dquote # ''b''] @ [[newline_char]]) init_state
     = ([[newline_char]],
        \<lparr>body = [''std::string s = a'' @ dquote # ''b;''], usesString = True, usesFloat = False\<rparr>)
   \<and> spec_reserialize [''a'', dquote # ''b''] = ''a '' @ dquote # ''b''
   \<and> fst (tokenizeFile (Some (''dekhao(a'' @ newline_char # ''integer x te 5'' @ [newline_char])))
     = [''dekhao'', ''('', ''a'', [newline_char], ''integer'', ''x'', ''te'', ''5'', [newline_char]]
   \<and> body (transpile_scan
       [''dekhao'', ''('', ''a'', [newline_char], ''integer'', ''x'', ''te'', ''5'', [newline_char]])
     = [''std::cout << std::endl;'']"
  by code_simp

text \<open>
  C1, amended: for every line \<open><type> <id> te <expr>\<close> whose first token is a type keyword
  and at whose first token the scan arrives, the transpiler emits exactly one line, which
  declares \<open><id>\<close> with the mapped type (\<open>int\<close> for \<open>integer\<close>, \<open>float\<close> for \<open>float\<close>,
  \<open>std::string\<close> for \<open>string\<close>; \<open>cppType\<close> leaves any other text unchanged) and is
  initialized to the re-serialization of the expression without its tokens \<open>te\<close>, where
  a token is word-like when it is so by the glossary and is not a literal left open (the
  test of the Expression Reader). The cursor is left on the marker
  of the line, the scan goes on behind it, and the flags are set for \<open>string\<close> and \<open>float\<close>.
  This is stated for expressions in which no \<open>te\<close> stands between a word-like token and a
  token that is not word-like or the end of the line.
\<close>

theorem declaration_line:
  assumes "isTypeKeyword tkw"
    and "\<forall>t\<in>set expr. \<not> isNewlineToken t"
    and "noStrayTe closedWordLike expr"
  shows "dispatch ([tkw, ident, ''te''] @ expr @ [newline_char] # rest) st =
      ([newline_char] # rest,
       st\<lparr>body := body st
            @ [cppType tkw @ '' '' @ ident @ '' = '' @ reserializeBy closedWordLike (withoutTe expr) @ '';''],
          usesString := (tkw = ''string'' \<or> usesString st),
          usesFloat := (tkw = ''float'' \<or> usesFloat st)\<rparr>)
     \<and> transpile_loop ([tkw, ident, ''te''] @ expr @ [newline_char] # rest) st =
        transpile_loop rest
         (st\<lparr>body := body st
            @ [cppType tkw @ '' '' @ ident @ '' = '' @ reserializeBy closedWordLike (withoutTe expr) @ '';''],
          usesString := (tkw = ''string'' \<or> usesString st),
          usesFloat := (tkw = ''float'' \<or> usesFloat st)\<rparr>)
     \<and> ((\<forall>t\<in>set expr. hd t = dquote \<longrightarrow> completeLiteral t) \<longrightarrow>
          reserializeBy closedWordLike (withoutTe expr) = spec_reserialize (withoutTe expr))
     \<and> cppType ''integer'' = ''int'' \<and> cppType ''float'' = ''float''
     \<and> cppType ''string'' = ''std::string''
     \<and> (\<not> isTypeKeyword other \<longrightarrow> cppType other = other)"
proof -
  define st' where "st' = st\<lparr>body := body st
            @ [cppType tkw @ '' '' @ ident @ '' = '' @ reserializeBy closedWordLike (withoutTe expr) @ '';''],
          usesString := (tkw = ''string'' \<or> usesString st),
          usesFloat := (tkw = ''float'' \<or> usesFloat st)\<rparr>"
  have r: "2 \<le> length (''te'' # expr @ [newline_char] # rest)" by simp
  have e: "readExprUntilEOL (expr @ [newline_char] # rest)
      = (reserializeBy closedWordLike (withoutTe expr), [newline_char] # rest)"
    unfolding readExprUntilEOL_def
    using readExpr_loop_withoutTe [OF assms(2), of "[newline_char] # rest" "[]"] assms(3)
    by (simp add: isNewlineToken_def wordLike_closed)
  have "dispatch (tkw # ident # ''te'' # expr @ [newline_char] # rest) st =
      ([newline_char] # rest,
       st\<lparr>body := body st @ [declStmt tkw ident (reserializeBy closedWordLike (withoutTe expr))],
          usesString := (if tkw = ''string'' then True else usesString st),
          usesFloat := (if tkw = ''float'' then True else usesFloat st)\<rparr>)"
    unfolding dispatch_decl [OF assms(1) r] by (simp add: e)
  then have d0: "dispatch (tkw # ident # ''te'' # expr @ [newline_char] # rest) st
      = ([newline_char] # rest, st')"
    by (simp add: declStmt_def st'_def del: dispatch.simps)
  then have d: "dispatch ([tkw, ident, ''te''] @ expr @ [newline_char] # rest) st
      = ([newline_char] # rest, st')"
    by (simp del: dispatch.simps)
  have nn: "\<not> isNewlineToken tkw"
    using assms(1) by (auto simp: isTypeKeyword_def isNewlineToken_def)
  have "transpile_loop ([tkw, ident, ''te''] @ expr @ [newline_char] # rest) st
      = transpile_loop ([newline_char] # rest) st'"
    using transpile_loop_step [of "[tkw, ident, ''te''] @ expr @ [newline_char] # rest" st] nn
    by (simp add: d0 del: dispatch.simps)
  also have "\<dots> = transpile_loop rest st'"
    using transpile_loop_skipNewlines [of "[newline_char] # rest" st']
      transpile_loop_skipNewlines [of rest st']
    by (simp add: skipNewlines_Cons isNewlineToken_def)
  finally have l: "transpile_loop ([tkw, ident, ''te''] @ expr @ [newline_char] # rest) st
      = transpile_loop rest st'" .
  have g: "reserializeBy closedWordLike (withoutTe expr) = spec_reserialize (withoutTe expr)"
    if "\<forall>t\<in>set expr. hd t = dquote \<longrightarrow> completeLiteral t"
  proof -
    have "\<forall>t\<in>set (withoutTe expr). closedWordLike t = spec_wordLike t"
      using that by (auto simp: withoutTe_def closedWordLike_def)
    then show ?thesis
      using reserializeBy_cong [of "withoutTe expr" closedWordLike spec_wordLike]
      by (simp add: reserializeBy_spec)
  qed
  have c: "cppType ''integer'' = ''int''" "cppType ''float'' = ''float''"
    "cppType ''string'' = ''std::string''" "\<not> isTypeKeyword other \<longrightarrow> cppType other = other"
    by (simp_all add: cppType_def isTypeKeyword_def)
  from d l g c show ?thesis unfolding st'_def by blast
qed

theorem declaration_line_witness:
  "dispatch [''string'', ''s'', ''te'', dquote # ''a b'' @ [dquote], ''+'', ''te'', ''x'', ''y'',
       [newline_char]] init_state
   = ([[newline_char]],
      \<lparr>body = [''std::string s = '' @ dquote # ''a b'' @ [dquote] @ ''+x y;''],
       usesString = True, usesFloat = False\<rparr>)"
proof -
  have k: "isTypeKeyword ''string''" by (simp add: isTypeKeyword_def)
  have e: "\<forall>t\<in>set [dquote # ''a b'' @ [dquote], ''+'', ''te'', ''x'', ''y'']. \<not> isNewlineToken t"
    by (simp add: isNewlineToken_def)
  have n: "noStrayTe closedWordLike [dquote # ''a b'' @ [dquote], ''+'', ''te'', ''x'', ''y'']"
    by (simp add: closedWordLike_def spec_wordLike_def completeLiteral_def isalnum_def)
  show ?thesis
    using declaration_line [OF k e n, where ident = "''s''" and rest = "[]" and st = init_state
        and other = "''s''"]
    by (simp add: withoutTe_def closedWordLike_def spec_wordLike_def completeLiteral_def
        isalnum_def cppType_def init_state_def del: dispatch.simps)
qed

subsection \<open>Print statements\<close>

lemma spec_reserialize_Cons:
  "\<not> spec_wordLike t \<Longrightarrow> spec_reserialize (t # ts) = t @ spec_reserialize ts"
  by (cases ts) auto

lemma not_argWord_paren: "\<not> argWord ''(''" "\<not> argWord '')''" "\<not> argWord '',''"
  by (simp_all add: argWord_def isalnum_def)

lemma splitArgs_loop_arg:
  assumes "argDepth a d = Some d'" and "\<not> argWord s"
  shows "splitArgs_loop (a @ s # r) d cur args = splitArgs_loop (s # r) d' (cur @ spec_reserialize a) args"
  using assms(1)
proof (induction a arbitrary: d cur)
  case Nil
  then show ?case by simp
next
  case (Cons t ts)
  show ?case
  proof (cases "t = ''(''")
    case True
    with Cons.prems have "argDepth ts (d + 1) = Some d'" by simp
    from Cons.IH [OF this, of "cur @ t"] True show ?thesis
      using not_argWord_paren(1)
      by (simp add: spec_reserialize_Cons spec_wordLike_is_argWord)
  next
    case no: False
    show ?thesis
    proof (cases "t = '')''")
      case True
      with Cons.prems have d: "d \<noteq> 0" and "argDepth ts (d - 1) = Some d'"
        by (auto split: if_splits)
      from Cons.IH [OF this(2), of "cur @ t"] True d show ?thesis
        using not_argWord_paren(2)
        by (simp add: spec_reserialize_Cons spec_wordLike_is_argWord)
    next
      case nc: False
      from Cons.prems no nc have nt: "\<not> (t = '','' \<and> d = 0)" and nn: "\<not> isNewlineToken t"
        and ad: "argDepth ts d = Some d'"
        by (auto split: if_splits)
      define sp where "sp = (case ts @ s # r of [] \<Rightarrow> [] | nxt # _ \<Rightarrow> if argWord t \<and> argWord nxt then '' '' else [])"
      have step: "splitArgs_loop ((t # ts) @ s # r) d cur args = splitArgs_loop (ts @ s # r) d (cur @ t @ sp) args"
        using no nc nt nn by (auto simp: sp_def)
      have ser: "spec_reserialize (t # ts) = t @ sp @ spec_reserialize ts"
      proof (cases ts)
        case Nil
        then show ?thesis using assms(2) by (simp add: sp_def)
      next
        case (Cons u us)
        then show ?thesis by (simp add: sp_def spec_wordLike_is_argWord)
      qed
      show ?thesis
        unfolding step Cons.IH [OF ad, of "cur @ t @ sp"] ser by simp
    qed
  qed
qed

lemma flushArg_eq: "flushArg cur args = args @ filter (\<lambda>a. a \<noteq> []) [trim cur]"
  by (simp add: flushArg_def)

lemma splitArgs_loop_args:
  assumes "\<forall>a\<in>set as. argDepth a 0 = Some 0"
  shows "splitArgs_loop (argTokens as @ '')'' # r) 0 [] args
     = (args @ filter (\<lambda>a. a \<noteq> []) (map (\<lambda>a. trim (spec_reserialize a)) as), r)"
  using assms
proof (induction as arbitrary: args rule: argTokens.induct)
  case 1
  then show ?case by (simp add: flushArg_def trim_def)
next
  case (2 a)
  then have a: "argDepth a 0 = Some 0" by simp
  show ?case
    using splitArgs_loop_arg [OF a not_argWord_paren(2), of r "[]" args]
    by (simp add: flushArg_eq)
next
  case (3 a b as)
  then have a: "argDepth a 0 = Some 0" by simp
  have ih: "splitArgs_loop (argTokens (b # as) @ '')'' # r) 0 [] args'
     = (args' @ filter (\<lambda>a. a \<noteq> []) (map (\<lambda>a. trim (spec_reserialize a)) (b # as)), r)" for args'
    using "3.IH" "3.prems" by simp
  have "splitArgs_loop (argTokens (a # b # as) @ '')'' # r) 0 [] args
      = splitArgs_loop ('','' # argTokens (b # as) @ '')'' # r) 0 (spec_reserialize a) args"
    using splitArgs_loop_arg [OF a not_argWord_paren(3), of "argTokens (b # as) @ '')'' # r" "[]" args]
    by simp
  also have "\<dots> = splitArgs_loop (argTokens (b # as) @ '')'' # r) 0 [] (flushArg (spec_reserialize a) args)"
    by simp
  also note ih
  finally show ?case by (simp add: flushArg_eq)
qed

lemma printStmt_eq:
  "printStmt args = ''std::cout'' @ concat (map (\<lambda>a. '' << '' @ a) args) @ '' << std::endl;''"
proof -
  have "foldl (\<lambda>stmt a. stmt @ '' << '' @ a) s args = s @ concat (map (\<lambda>a. '' << '' @ a) args)" for s
    by (induction args arbitrary: s) simp_all
  then show ?thesis by (simp add: printStmt_def)
qed

lemma tokenizeLine_visible: "t \<in> set (tokenizeLine l) \<Longrightarrow> t \<noteq> [] \<and> \<not> isspace (hd t)"
proof (induction l rule: tokenizeLine.induct)
  case 1
  then show ?case by simp
next
  case (2 ch rest)
  show ?case
  proof (cases "isspace ch")
    case True
    with 2 show ?thesis by simp
  next
    case sp: False
    show ?thesis
    proof (cases "ch = dquote")
      case True
      show ?thesis
      proof (cases "dropWhile (\<lambda>c. c \<noteq> dquote) rest")
        case Nil
        with sp True "2.prems" show ?thesis by auto
      next
        case (Cons q after)
        with sp True "2.prems" "2.IH"(2) show ?thesis by auto
      qed
    next
      case nq: False
      with sp 2 show ?thesis by (auto split: if_splits)
    qed
  qed
qed

lemma spec_reserialize_hd: "a \<noteq> [] \<Longrightarrow> hd a \<noteq> [] \<Longrightarrow>
    spec_reserialize a \<noteq> [] \<and> hd (spec_reserialize a) = hd (hd a)"
  by (induction a rule: spec_reserialize.induct) auto

lemma trim_visible: "s \<noteq> [] \<Longrightarrow> \<not> isspace (hd s) \<Longrightarrow> trim s \<noteq> []"
proof -
  assume a: "s \<noteq> []" "\<not> isspace (hd s)"
  then have "dropWhile isspace s = s" by (cases s) auto
  moreover have "hd s \<in> set (rev s)" using a by (cases s) auto
  then have "dropWhile isspace (rev s) \<noteq> []" using a(2) by auto
  ultimately show ?thesis by (simp add: trim_def)
qed

lemma trim_spec: "trim s = spec_trim s"
proof -
  have "rev (dropWhile P (rev xs)) = take (length xs - length (takeWhile P (rev xs))) xs"
    for P :: "char \<Rightarrow> bool" and xs
  proof -
    have "rev xs = takeWhile P (rev xs) @ dropWhile P (rev xs)" by simp
    then have "xs = rev (dropWhile P (rev xs)) @ rev (takeWhile P (rev xs))"
      by (metis rev_append rev_rev_ident)
    moreover have "length (rev (dropWhile P (rev xs))) = length xs - length (takeWhile P (rev xs))"
      by (metis (no_types) add_diff_cancel_left' length_append length_rev takeWhile_dropWhile_id)
    ultimately show ?thesis
      by (metis append_eq_conv_conj)
  qed
  then show ?thesis by (simp add: trim_def spec_trim_def Let_def)
qed

lemma spec_reserialize_last: "a \<noteq> [] \<Longrightarrow> last a \<noteq> [] \<Longrightarrow>
    spec_reserialize a \<noteq> [] \<and> last (spec_reserialize a) = last (last a)"
  by (induction a rule: spec_reserialize.induct) auto

lemma spec_trim_id:
  assumes "s \<noteq> []" and "\<not> isspace (hd s)" and "\<not> isspace (last s)"
  shows "spec_trim s = s"
proof -
  have a: "dropWhile isspace s = s" using assms(1,2) by (cases s) auto
  obtain x xs where r: "rev s = x # xs" using assms(1) by (cases "rev s") auto
  have "hd (rev s) = last s" using assms(1) by (simp add: hd_rev)
  then have "x = last s" using r by simp
  then have "takeWhile isspace (x # xs) = []"
    using assms(3) by simp
  then have "takeWhile isspace (rev s) = []"
    by (simp only: r)
  with a show ?thesis by (simp add: spec_trim_def)
qed

lemma spec_trim_visible: "s \<noteq> [] \<Longrightarrow> \<not> isspace (hd s) \<Longrightarrow> spec_trim s \<noteq> []"
  using trim_visible [of s] by (simp add: trim_spec)

text \<open>
  C2 as stated does not hold, at two inputs. In \<open>dekhao(a, b\<close> the keyword is followed by
  an opening parenthesis and the line has two arguments, but the list is not closed and the
  emitted line performs one output operation. In the input \<open>dekhao(a\<close>, \<open>dekhao(b)\<close> the
  unclosed list of the first line takes the second line with it: one line without an output
  operation is emitted for the two print statements.
\<close>

theorem print_line_counterexample:
  "tokenizeLine ''dekhao(a, b'' = [''dekhao'', ''('', ''a'', '','', ''b'']
   \<and> dispatch [''dekhao'', ''('', ''a'', '','', ''b'', [newline_char]] init_state
     = ([], \<lparr>body = [''std::cout << a << std::endl;''], usesString = False, usesFloat = False\<rparr>)
   \<and> fst (tokenizeFile (Some (''dekhao(a'' @ newline_char # ''dekhao(b)'' @ [newline_char])))
     = [''dekhao'', ''('', ''a'', [newline_char], ''dekhao'', ''('', ''b'', '')'', [newline_char]]
   \<and> body (transpile_scan
       [''dekhao'', ''('', ''a'', [newline_char], ''dekhao'', ''('', ''b'', '')'', [newline_char]])
     = [''std::cout << std::endl;'']"
  by code_simp

text \<open>
  C2, amended: for every print statement line at whose keyword the scan arrives, whose
  keyword is followed by an opening parenthesis and whose argument list is closed on the
  line by a closing parenthesis at depth zero, with the arguments \<open>a1, ..., aN\<close> between the
  commas at depth zero, the emitted line is \<open>std::cout\<close>, then one output operation
  \<open><< text\<close> for each argument whose text is not empty after trimming, in the order of the
  arguments, then one \<open><< std::endl;\<close>. The tokens behind the closing parenthesis are
  discarded up to the marker, the scan goes on from there, and the flags are unchanged. No
  argument is dropped when each starts with a token that starts with a character that is
  not white space, as every token of the Tokenizer does; and when no token starts or ends
  with white space, the line has exactly N output operations, each with the re-serialized
  tokens of its argument. An empty call list gives none.
\<close>

theorem print_line:
  assumes "\<forall>a\<in>set as. argDepth a 0 = Some 0"
  shows "dispatch (''dekhao'' # ''('' # argTokens as @ '')'' # r) st =
      (skipToEOL r,
       st\<lparr>body := body st @
          [''std::cout''
           @ concat (map (\<lambda>text. '' << '' @ text)
               (filter (\<lambda>text. text \<noteq> []) (map (\<lambda>a. spec_trim (spec_reserialize a)) as)))
           @ '' << std::endl;'']\<rparr>)
     \<and> transpile_loop (''dekhao'' # ''('' # argTokens as @ '')'' # r) st =
        transpile_loop (skipToEOL r)
         (st\<lparr>body := body st @
          [''std::cout''
           @ concat (map (\<lambda>text. '' << '' @ text)
               (filter (\<lambda>text. text \<noteq> []) (map (\<lambda>a. spec_trim (spec_reserialize a)) as)))
           @ '' << std::endl;'']\<rparr>)
     \<and> ((\<forall>a\<in>set as. a \<noteq> [] \<and> hd a \<noteq> [] \<and> \<not> isspace (hd (hd a))) \<longrightarrow>
          filter (\<lambda>text. text \<noteq> []) (map (\<lambda>a. spec_trim (spec_reserialize a)) as)
            = map (\<lambda>a. spec_trim (spec_reserialize a)) as)
     \<and> ((\<forall>a\<in>set as. a \<noteq> [] \<and> (\<forall>t\<in>set a. t \<noteq> [] \<and> \<not> isspace (hd t) \<and> \<not> isspace (last t))) \<longrightarrow>
          filter (\<lambda>text. text \<noteq> []) (map (\<lambda>a. spec_trim (spec_reserialize a)) as)
            = map spec_reserialize as)
     \<and> (\<forall>t\<in>set (tokenizeLine l). t \<noteq> [] \<and> \<not> isspace (hd t))
     \<and> dispatch (''dekhao'' # ''('' # '')'' # r) st
         = (skipToEOL r, st\<lparr>body := body st @ [''std::cout << std::endl;'']\<rparr>)"
proof -
  define outs where
    "outs = filter (\<lambda>text. text \<noteq> []) (map (\<lambda>a. spec_trim (spec_reserialize a)) as)"
  define st' where "st' = st\<lparr>body := body st @
          [''std::cout'' @ concat (map (\<lambda>text. '' << '' @ text) outs) @ '' << std::endl;'']\<rparr>"
  have s: "splitArgs (argTokens as @ '')'' # r) = (outs, r)"
    unfolding splitArgs_def outs_def using splitArgs_loop_args [OF assms, of r "[]"]
    by (simp add: trim_spec)
  have 1: "dispatch (''dekhao'' # ''('' # argTokens as @ '')'' # r) st = (skipToEOL r, st')"
    unfolding dispatch_print s by (simp add: printStmt_eq st'_def)
  have 2: "transpile_loop (''dekhao'' # ''('' # argTokens as @ '')'' # r) st
      = transpile_loop (skipToEOL r) st'"
    using transpile_loop_step [of "''dekhao'' # ''('' # argTokens as @ '')'' # r" st]
    by (simp add: 1 isNewlineToken_def del: dispatch.simps)
  have v: "spec_trim (spec_reserialize a) \<noteq> []"
    if "a \<noteq> []" "hd a \<noteq> []" "\<not> isspace (hd (hd a))" for a
    using spec_reserialize_hd [OF that(1,2)] that(3) by (simp add: spec_trim_visible)
  have 3: "(\<forall>a\<in>set as. a \<noteq> [] \<and> hd a \<noteq> [] \<and> \<not> isspace (hd (hd a))) \<longrightarrow>
          outs = map (\<lambda>a. spec_trim (spec_reserialize a)) as"
    unfolding outs_def using v by (auto simp: filter_id_conv)
  have w: "spec_trim (spec_reserialize a) = spec_reserialize a \<and> spec_reserialize a \<noteq> []"
    if a: "a \<noteq> []" and t: "\<forall>t\<in>set a. t \<noteq> [] \<and> \<not> isspace (hd t) \<and> \<not> isspace (last t)" for a
  proof -
    have h: "hd a \<in> set a" "last a \<in> set a" using a by simp_all
    then have hn: "hd a \<noteq> []" "last a \<noteq> []" "\<not> isspace (hd (hd a))" "\<not> isspace (last (last a))"
      using t by auto
    have "spec_reserialize a \<noteq> []" "hd (spec_reserialize a) = hd (hd a)"
      "last (spec_reserialize a) = last (last a)"
      using spec_reserialize_hd [OF a hn(1)] spec_reserialize_last [OF a hn(2)] by simp_all
    then show ?thesis using hn(3,4) by (simp add: spec_trim_id)
  qed
  have 4: "(\<forall>a\<in>set as. a \<noteq> [] \<and> (\<forall>t\<in>set a. t \<noteq> [] \<and> \<not> isspace (hd t) \<and> \<not> isspace (last t))) \<longrightarrow>
          outs = map spec_reserialize as"
  proof
    assume h: "\<forall>a\<in>set as. a \<noteq> [] \<and> (\<forall>t\<in>set a. t \<noteq> [] \<and> \<not> isspace (hd t) \<and> \<not> isspace (last t))"
    then have "\<forall>a\<in>set as. spec_trim (spec_reserialize a) = spec_reserialize a \<and> spec_reserialize a \<noteq> []"
      using w by blast
    then have "map (\<lambda>a. spec_trim (spec_reserialize a)) as = map spec_reserialize as"
      and "\<forall>a\<in>set as. spec_reserialize a \<noteq> []"
      by simp_all
    then show "outs = map spec_reserialize as"
      unfolding outs_def by (simp add: filter_id_conv)
  qed
  have 5: "\<forall>t\<in>set (tokenizeLine l). t \<noteq> [] \<and> \<not> isspace (hd t)"
    using tokenizeLine_visible by blast
  have "splitArgs ('')'' # r) = ([], r)"
    by (simp add: splitArgs_def flushArg_def trim_def)
  then have 6: "dispatch (''dekhao'' # ''('' # '')'' # r) st
         = (skipToEOL r, st\<lparr>body := body st @ [''std::cout << std::endl;'']\<rparr>)"
    unfolding dispatch_print by (simp add: printStmt_def)
  from 1 2 3 4 5 6 show ?thesis unfolding st'_def outs_def by blast
qed

theorem print_line_witness:
  "tokenizeLine (''dekhao('' @ dquote # ''Hello'' @ dquote # '', x)'')
     = ''dekhao'' # ''('' # argTokens [[dquote # ''Hello'' @ [dquote]], [''x'']] @ '')'' # []
   \<and> dispatch (''dekhao'' # ''('' # argTokens [[dquote # ''Hello'' @ [dquote]], [''x'']]
         @ '')'' # [[newline_char]]) init_state
     = ([[newline_char]],
        \<lparr>body = [''std::cout << '' @ dquote # ''Hello'' @ dquote # '' << x << std::endl;''],
         usesString = False, usesFloat = False\<rparr>)"
proof -
  have a: "\<forall>a\<in>set [[dquote # ''Hello'' @ [dquote]], [''x'']]. argDepth a 0 = Some 0"
    by (simp add: isNewlineToken_def)
  have t: "tokenizeLine (''dekhao('' @ dquote # ''Hello'' @ dquote # '', x)'')
     = ''dekhao'' # ''('' # argTokens [[dquote # ''Hello'' @ [dquote]], [''x'']] @ '')'' # []"
    by code_simp
  have v: "\<forall>a\<in>set [[dquote # ''Hello'' @ [dquote]], [''x'']].
      a \<noteq> [] \<and> (\<forall>t\<in>set a. t \<noteq> [] \<and> \<not> isspace (hd t) \<and> \<not> isspace (last t))"
    by (simp add: isspace_def)
  have d: "dispatch (''dekhao'' # ''('' # argTokens [[dquote # ''Hello'' @ [dquote]], [''x'']]
         @ '')'' # [[newline_char]]) init_state
     = ([[newline_char]],
        \<lparr>body = [''std::cout << '' @ dquote # ''Hello'' @ dquote # '' << x << std::endl;''],
         usesString = False, usesFloat = False\<rparr>)"
  proof -
    note th = print_line [OF a, of "[[newline_char]]" init_state "[]"]
    from th v have o: "filter (\<lambda>text. text \<noteq> [])
          (map (\<lambda>a. spec_trim (spec_reserialize a)) [[dquote # ''Hello'' @ [dquote]], [''x'']])
        = map spec_reserialize [[dquote # ''Hello'' @ [dquote]], [''x'']]"
      by blast
    from th [THEN conjunct1] show ?thesis
      unfolding o
      by (simp add: skipToEOL_def isNewlineToken_def init_state_def del: dispatch.simps)
  qed
  from t d show ?thesis by (rule conjI)
qed

subsection \<open>Argument lists that are not closed\<close>

lemma splitArgs_loop_unclosed_rest:
  "\<not> closesAtTop tok d \<Longrightarrow> snd (splitArgs_loop tok d cur args) = []"
  by (induction tok d cur args rule: splitArgs_loop.induct) (auto split: if_splits)

lemma splitArgs_loop_unclosed_args:
  "\<not> closesAtTop tok d \<Longrightarrow> \<not> commaAtTop tok d \<Longrightarrow> fst (splitArgs_loop tok d cur args) = args"
  by (induction tok d cur args rule: splitArgs_loop.induct) (auto split: if_splits)

lemma closesAtTop_arg:
  "argDepth a d = Some d' \<Longrightarrow> closesAtTop (a @ x) d = closesAtTop x d'"
  by (induction a arbitrary: d) (auto split: if_splits)

lemma closesAtTop_args:
  "\<forall>a\<in>set as. argDepth a 0 = Some 0 \<Longrightarrow> closesAtTop (argTokens as @ '','' # s) 0 = closesAtTop s 0"
proof (induction as rule: argTokens.induct)
  case 1
  then show ?case by simp
next
  case (2 a)
  then show ?case by (simp add: closesAtTop_arg)
next
  case (3 a b as)
  then have a: "argDepth a 0 = Some 0" by simp
  have "closesAtTop (a @ '','' # argTokens (b # as) @ '','' # s) 0 = closesAtTop (argTokens (b # as) @ '','' # s) 0"
    by (simp add: closesAtTop_arg [OF a])
  with 3 show ?case by simp
qed

lemma splitArgs_loop_commas:
  assumes "\<forall>a\<in>set as. argDepth a 0 = Some 0"
  shows "splitArgs_loop (argTokens as @ '','' # s) 0 [] args
     = splitArgs_loop s 0 [] (args @ filter (\<lambda>text. text \<noteq> []) (map (\<lambda>a. trim (spec_reserialize a)) as))"
  using assms
proof (induction as arbitrary: args rule: argTokens.induct)
  case 1
  then show ?case by (simp add: flushArg_def trim_def)
next
  case (2 a)
  then have a: "argDepth a 0 = Some 0" by simp
  show ?case
    using splitArgs_loop_arg [OF a not_argWord_paren(3), of s "[]" args]
    by (simp add: flushArg_eq)
next
  case (3 a b as)
  then have a: "argDepth a 0 = Some 0" by simp
  have ih: "splitArgs_loop (argTokens (b # as) @ '','' # s) 0 [] args'
     = splitArgs_loop s 0 [] (args' @ filter (\<lambda>text. text \<noteq> []) (map (\<lambda>a. trim (spec_reserialize a)) (b # as)))" for args'
    using "3.IH" "3.prems" by simp
  have "splitArgs_loop (argTokens (a # b # as) @ '','' # s) 0 [] args
      = splitArgs_loop ('','' # argTokens (b # as) @ '','' # s) 0 (spec_reserialize a) args"
    using splitArgs_loop_arg [OF a not_argWord_paren(3), of "argTokens (b # as) @ '','' # s" "[]" args]
    by simp
  also have "\<dots> = splitArgs_loop (argTokens (b # as) @ '','' # s) 0 [] (flushArg (spec_reserialize a) args)"
    by simp
  also note ih
  finally show ?case by (simp add: flushArg_eq)
qed

text \<open>
  C10: when no closing parenthesis at depth zero ends the argument list, the Argument
  Splitter consumes every remaining token, markers included (a marker is passed over and
  does not end the list). What is in the buffer at the end is not added to the arguments:
  without a comma at depth zero the arguments are returned as they were, whatever the buffer
  and the tokens are; and when the tokens are the arguments \<open>as\<close>, each followed by a comma
  at depth zero, and then tokens \<open>s\<close> without such a comma, exactly the texts of \<open>as\<close> are
  returned and the text of \<open>s\<close> is lost.
\<close>

theorem unclosed_argument_list:
  assumes "\<not> closesAtTop tok d"
  shows "snd (splitArgs_loop tok d cur args) = []
     \<and> (\<not> commaAtTop tok d \<longrightarrow> fst (splitArgs_loop tok d cur args) = args)
     \<and> splitArgs_loop ([newline_char] # tok) d cur args = splitArgs_loop tok d cur args
     \<and> ((\<forall>a\<in>set as. argDepth a 0 = Some 0) \<and> tok = argTokens as @ '','' # s \<and> d = 0
          \<and> \<not> commaAtTop s 0 \<longrightarrow>
        splitArgs tok
          = (filter (\<lambda>text. text \<noteq> []) (map (\<lambda>a. trim (spec_reserialize a)) as), []))"
proof -
  have 1: "snd (splitArgs_loop tok d cur args) = []"
    using assms by (rule splitArgs_loop_unclosed_rest)
  have 2: "\<not> commaAtTop tok d \<longrightarrow> fst (splitArgs_loop tok d cur args) = args"
    using assms by (simp add: splitArgs_loop_unclosed_args)
  have 3: "splitArgs_loop ([newline_char] # tok) d cur args = splitArgs_loop tok d cur args"
    by (simp add: isNewlineToken_def)
  have 4: "splitArgs tok
          = (filter (\<lambda>text. text \<noteq> []) (map (\<lambda>a. trim (spec_reserialize a)) as), [])"
    if as: "\<forall>a\<in>set as. argDepth a 0 = Some 0" and tok: "tok = argTokens as @ '','' # s"
      and d: "d = 0" and s: "\<not> commaAtTop s 0"
  proof -
    have c: "\<not> closesAtTop s 0"
      using assms closesAtTop_args [OF as, of s] tok d by simp
    have "splitArgs_loop s 0 [] args' = (args', [])" for args'
      using splitArgs_loop_unclosed_rest [OF c, of "[]" args']
        splitArgs_loop_unclosed_args [OF c s, of "[]" args']
      by (metis prod.collapse)
    then show ?thesis
      unfolding splitArgs_def tok splitArgs_loop_commas [OF as] by simp
  qed
  from 1 2 3 4 show ?thesis by blast
qed

theorem unclosed_argument_list_witness:
  "splitArgs [''a'', '','', ''b'', ''('', ''c'', '')'', [newline_char], ''x'', ''te'', ''5'', [newline_char]]
     = ([''a''], [])"
proof -
  have c: "\<not> closesAtTop [''a'', '','', ''b'', ''('', ''c'', '')'', [newline_char], ''x'', ''te'', ''5'', [newline_char]] 0"
    by simp
  have a: "\<forall>a\<in>set [[''a'']]. argDepth a 0 = Some 0"
    by (simp add: isNewlineToken_def)
  have s: "\<not> commaAtTop [''b'', ''('', ''c'', '')'', [newline_char], ''x'', ''te'', ''5'', [newline_char]] 0"
    by simp
  show ?thesis
    using unclosed_argument_list [OF c, where as = "[[''a'']]"
        and s = "[''b'', ''('', ''c'', '')'', [newline_char], ''x'', ''te'', ''5'', [newline_char]]"
        and cur = "[]" and args = "[]"] a s
    by (simp add: trim_def isspace_def del: splitArgs_loop.simps)
qed


subsection \<open>Feature flags and the program text\<close>


lemma followedBy_init [simp]: "followedBy st init_state = st" "followedBy init_state e = e"
  by (simp_all add: followedBy_def init_state_def)











subsection \<open>Exit status\<close>

lemma getlines_empty: "getlines bytes = [] \<longleftrightarrow> bytes = []"
  by (cases bytes) simp_all

lemma tokenizeFile_empty: "fst (tokenizeFile file) = [] \<longleftrightarrow> file = None \<or> file = Some []"
  by (cases "file") (auto simp: tokenizeFile_def getlines_empty)

text \<open>
  C9: the exit status is not zero, with a diagnostic on \<open>cerr\<close>, exactly when the input
  cannot be opened or the Tokenizer gives no token, and it is zero in every other case,
  whatever the lines of the input are and whether or not \<open>generated.cpp\<close> can be written.
  An input that can be opened gives no token only when it is empty, since every line
  gives at least its marker.
\<close>

theorem exit_status_of_main:
  "((exit_status (main file writable) \<noteq> 0 \<and> diagnostics (main file writable) \<noteq> [])
      \<longleftrightarrow> (file = None \<or> fst (tokenizeFile file) = []))
   \<and> (\<not> (file = None \<or> fst (tokenizeFile file) = []) \<longrightarrow> exit_status (main file writable) = 0)
   \<and> (file = None \<or> fst (tokenizeFile file) = [] \<longrightarrow> exit_status (main file writable) = 1)
   \<and> (fst (tokenizeFile file) = [] \<longleftrightarrow> file = None \<or> file = Some [])"
proof -
  have e: "fst (tokenizeFile file) = []" if "file = None"
    using that by (simp add: tokenizeFile_def)
  have 1: "exit_status (main file writable) = 1 \<and> diagnostics (main file writable) \<noteq> []"
    if "fst (tokenizeFile file) = []"
    using that by (simp add: main_def split_beta)
  have 2: "exit_status (main file writable) = 0" if "fst (tokenizeFile file) \<noteq> []"
    using that by (simp add: main_def split_beta Let_def)
  from e 1 2 tokenizeFile_empty [of "file"] show ?thesis by (cases "fst (tokenizeFile file) = []") auto
qed

theorem exit_status_of_main_witness:
  "exit_status (main (Some ''hello world'') False) = 0
   \<and> body (transpile_scan (fst (tokenizeFile (Some ''hello world'')))) = []
   \<and> exit_status (main None True) = 1
   \<and> exit_status (main (Some []) True) = 1"
proof -
  have a: "\<not> (Some ''hello world'' = None \<or> fst (tokenizeFile (Some ''hello world'')) = [])"
    by code_simp
  have b: "body (transpile_scan (fst (tokenizeFile (Some ''hello world'')))) = []"
    by code_simp
  have c: "fst (tokenizeFile (Some [])) = []"
    by code_simp
  show ?thesis
    using exit_status_of_main [of "Some ''hello world''" False] a b c
      exit_status_of_main [of None True] exit_status_of_main [of "Some []" True]
    by simp
qed

end
